theory Spec2Isabelle
  imports Complex_Main "HOL-Library.Word"
begin

section \<open>Data model\<close>

text \<open>
  The program (\<^verbatim>\<open>src/main.py\<close>) walks a folder, and for every JPEG or PNG file
  larger than 19 MiB re-encodes it so that it fits a target size. The image codec
  (Pillow), the path library and the file system are external to the repository; they
  appear here as a record of functions, \<open>world\<close>, that every operation takes as a
  parameter, and as an explicit state holding the files, the calls made to the codec and
  the lines printed.

  Python's \<^verbatim>\<open>float\<close> sizes are modelled as \<open>real\<close>: a size in MB is a byte count
  divided by \<open>2 ^ 20\<close>, which is exact in binary floating point for every count
  below \<open>2 ^ 53\<close>, so the comparisons of the source are the comparisons of the reals.
\<close>

type_synonym bytes = "8 word list"

text \<open>A \<^verbatim>\<open>pathlib.Path\<close>: the directory part and the final component.\<close>

record path =
  parent :: string
  name :: string

text \<open>An exception of class \<^verbatim>\<open>Exception\<close>, with the text that \<^verbatim>\<open>str(e)\<close> gives.\<close>

datatype exn = Exn string

type_synonym exif = "nat \<rightharpoonup> int"

text \<open>
  A decoded \<^verbatim>\<open>PIL.Image\<close>: its \<^verbatim>\<open>format\<close> attribute (\<^verbatim>\<open>None\<close> for an image that
  was not read from a file), the pixel buffer (opaque), the EXIF dictionary that
  \<^verbatim>\<open>getexif()\<close> returns and \<^verbatim>\<open>info.get("icc_profile")\<close>.
\<close>

record image =
  format :: "string option"
  pixels :: "nat list"
  exif :: exif
  icc_profile :: "bytes option"

text \<open>
  The external capabilities. Each may raise, which is the \<open>Inl\<close> of its result.
  \<open>write_error p\<close> is the exception that opening \<open>p\<close> for writing raises, if any.
\<close>

record world =
  image_open :: "bytes \<Rightarrow> exn + image"
  exif_transpose :: "image \<Rightarrow> exn + image"
  tobytes :: "exif \<Rightarrow> exn + bytes"
  save_jpeg :: "nat list \<Rightarrow> int \<Rightarrow> bool \<Rightarrow> bytes \<Rightarrow> bytes option \<Rightarrow> exn + bytes"
  save_png :: "nat list \<Rightarrow> bool \<Rightarrow> nat \<Rightarrow> exn + bytes"
  write_error :: "path \<Rightarrow> exn option"
  is_dir :: "string \<Rightarrow> bool"
  rglob :: "string \<Rightarrow> path list"

text \<open>
  The calls that reach the codec and the file system, in the order they are made:
  decoding a file, transposing, one JPEG encode (quality, \<^verbatim>\<open>optimize\<close>, EXIF bytes, ICC
  profile), one PNG encode to a path (\<^verbatim>\<open>optimize\<close>, \<^verbatim>\<open>compress_level\<close>), one
  \<^verbatim>\<open>write_bytes\<close>.
\<close>

datatype event =
    Decode path
  | Transpose
  | EncodeJPEG int bool bytes "bytes option"
  | EncodePNG path bool nat
  | Write path bytes

record state =
  fs :: "path \<rightharpoonup> bytes"
  log :: "event list"
  console :: "(path \<times> string \<times> real) list"

record args =
  folder :: string
  target_mb :: real
  min_quality :: int
  overwrite :: bool

section \<open>Path operations\<close>

text \<open>
  \<^verbatim>\<open>str.rfind\<close> of a character: the index of its last occurrence, \<open>- 1\<close> when there
  is none.
\<close>

fun rfind :: "char \<Rightarrow> string \<Rightarrow> int" where
  "rfind c [] = - 1"
| "rfind c (x # xs) =
     (let i = rfind c xs in
      if 0 \<le> i then i + 1 else if x = c then 0 else - 1)"

text \<open>
  \<^verbatim>\<open>Path.suffix\<close> and \<^verbatim>\<open>Path.stem\<close> (pathlib of Python 3.9 to 3.13): the final
  component is cut at its last dot, unless that dot is its first or its last character.
\<close>

definition suffix :: "path \<Rightarrow> string" where
  "suffix p =
     (let i = rfind (CHR ''.'') (name p) in
      if 0 < i \<and> i < int (length (name p)) - 1 then drop (nat i) (name p) else [])"

definition stem :: "path \<Rightarrow> string" where
  "stem p =
     (let i = rfind (CHR ''.'') (name p) in
      if 0 < i \<and> i < int (length (name p)) - 1 then take (nat i) (name p) else name p)"

text \<open>
  \<^verbatim>\<open>Path.with_name\<close> raises \<^verbatim>\<open>ValueError\<close> when the path has no final component or
  the new name is empty, holds a separator or is a single dot; \<^verbatim>\<open>Path.with_stem\<close>
  keeps the suffix.
\<close>

definition with_name :: "path \<Rightarrow> string \<Rightarrow> exn + path" where
  "with_name p n =
     (if name p = [] then Inl (Exn ''path has an empty name'')
      else if n = [] \<or> CHR ''/'' \<in> set n \<or> n = ''.'' then Inl (Exn ''Invalid name'')
      else Inr (p\<lparr>name := n\<rparr>))"

definition with_stem :: "path \<Rightarrow> string \<Rightarrow> exn + path" where
  "with_stem p s = with_name p (s @ suffix p)"

section \<open>Utility helpers\<close>

definition MiB :: real where
  "MiB = 1024 * 1024"

text \<open>\<^verbatim>\<open>file_size_mb\<close>: \<^verbatim>\<open>stat\<close> raises when there is no such file.\<close>

definition file_size_mb :: "state \<Rightarrow> path \<Rightarrow> exn + real" where
  "file_size_mb st p =
     (case fs st p of
        None \<Rightarrow> Inl (Exn ''No such file or directory'')
      | Some b \<Rightarrow> Inr (real (length b) / MiB))"

definition ORIENT :: nat where
  "ORIENT = 0x0112"

text \<open>
  \<^verbatim>\<open>strip_orientation\<close> updates the dictionary it is given in place and returns its
  serialisation: the result is the dictionary after the call and the bytes (or the
  exception of \<^verbatim>\<open>tobytes\<close>).
\<close>

definition strip_orientation :: "world \<Rightarrow> exif \<Rightarrow> exif \<times> (exn + bytes)" where
  "strip_orientation w ex =
     (let ex' = (case ex ORIENT of None \<Rightarrow> ex | Some v \<Rightarrow> ex(ORIENT \<mapsto> 1))
      in (ex', tobytes w ex'))"

text \<open>\<^verbatim>\<open>str\<close> of an integer, for the labels.\<close>

fun digits :: "nat \<Rightarrow> string" where
  "digits n =
     (if n < 10 then [''0123456789'' ! n]
      else digits (n div 10) @ [''0123456789'' ! (n mod 10)])"

declare digits.simps [simp del]

definition str_int :: "int \<Rightarrow> string" where
  "str_int i = (if i < 0 then CHR ''-'' # digits (nat (- i)) else digits (nat i))"

definition str_opt_int :: "int option \<Rightarrow> string" where
  "str_opt_int q = (case q of None \<Rightarrow> ''None'' | Some i \<Rightarrow> str_int i)"

definition str_opt :: "string option \<Rightarrow> string" where
  "str_opt s = (case s of None \<Rightarrow> ''None'' | Some t \<Rightarrow> t)"

text \<open>
  The non-ASCII characters of the labels, as their UTF-8 bytes: the check mark, the
  ballot cross, less-or-equal and greater-or-equal.
\<close>

definition check_mark :: string where
  "check_mark = [CHR 0xE2, CHR 0x9C, CHR 0x93]"

definition ballot_x :: string where
  "ballot_x = [CHR 0xE2, CHR 0x9C, CHR 0x97]"

definition le_sign :: string where
  "le_sign = [CHR 0xE2, CHR 0x89, CHR 0xA4]"

definition ge_sign :: string where
  "ge_sign = [CHR 0xE2, CHR 0x89, CHR 0xA5]"

section \<open>Compression primitives\<close>

text \<open>
  Lines 57 to 60 of \<^verbatim>\<open>compress_jpeg\<close>: one encode of the image at quality \<open>q\<close> into a
  memory buffer. The EXIF dictionary of the image is the one \<^verbatim>\<open>getexif()\<close> hands
  out, so the update made by \<^verbatim>\<open>strip_orientation\<close> stays in the image.
\<close>

definition encode_jpeg_at ::
  "world \<Rightarrow> image \<Rightarrow> int \<Rightarrow> state \<Rightarrow> (exn + bytes) \<times> image \<times> state" where
  "encode_jpeg_at w img q st =
     (let (ex', r) = strip_orientation w (exif img);
          img' = img\<lparr>exif := ex'\<rparr>
      in case r of
           Inl e \<Rightarrow> (Inl e, img', st)
         | Inr exif_bytes \<Rightarrow>
             (save_jpeg w (pixels img') q True exif_bytes (icc_profile img'),
              img',
              st\<lparr>log := log st @ [EncodeJPEG q True exif_bytes (icc_profile img')]\<rparr>))"

text \<open>
  The \<^verbatim>\<open>while lo <= hi\<close> loop of \<^verbatim>\<open>compress_jpeg\<close>. It returns the loop variables
  \<open>lo\<close>, \<open>hi\<close>, \<open>best_bytes\<close> and \<open>best_q\<close> as they are when the loop is left, or the
  exception that left it.
\<close>

function jpeg_search ::
  "world \<Rightarrow> real \<Rightarrow> image \<Rightarrow> int \<Rightarrow> int \<Rightarrow> bytes option \<Rightarrow> int option \<Rightarrow> state
     \<Rightarrow> (exn + int \<times> int \<times> bytes option \<times> int option) \<times> state" where
  "jpeg_search w tgt img lo hi best_bytes best_q st =
     (if lo \<le> hi then
        (let q = (lo + hi) div 2 in
         case encode_jpeg_at w img q st of
           (Inl e, img', st') \<Rightarrow> (Inl e, st')
         | (Inr buf, img', st') \<Rightarrow>
             (if real (length buf) / MiB \<le> tgt
              then jpeg_search w tgt img' (q + 1) hi (Some buf) (Some q) st'
              else jpeg_search w tgt img' lo (q - 1) best_bytes best_q st'))
      else (Inr (lo, hi, best_bytes, best_q), st))"
  by pat_completeness auto
termination
  by (relation "measure (\<lambda>(w, tgt, img, lo, hi, bb, bq, st). nat (hi - lo + 1))") auto

declare jpeg_search.simps [simp del]

text \<open>\<^verbatim>\<open>Path.write_bytes\<close>.\<close>

definition write_bytes :: "world \<Rightarrow> path \<Rightarrow> bytes \<Rightarrow> state \<Rightarrow> (exn + unit) \<times> state" where
  "write_bytes w p b st =
     (case write_error w p of
        Some e \<Rightarrow> (Inl e, st\<lparr>log := log st @ [Write p b]\<rparr>)
      | None \<Rightarrow> (Inr (), st\<lparr>fs := (fs st)(p \<mapsto> b), log := log st @ [Write p b]\<rparr>))"

definition compress_jpeg ::
  "world \<Rightarrow> image \<Rightarrow> path \<Rightarrow> real \<Rightarrow> int \<Rightarrow> int \<Rightarrow> state
     \<Rightarrow> (exn + bool \<times> int option \<times> real option) \<times> state" where
  "compress_jpeg w img out_path tgt min_q max_q st =
     (case jpeg_search w tgt img min_q max_q None None st of
        (Inl e, st1) \<Rightarrow> (Inl e, st1)
      | (Inr (lo, hi, best_bytes, best_q), st1) \<Rightarrow>
          (case best_bytes of
             None \<Rightarrow> (Inr (False, None, None), st1)
           | Some b \<Rightarrow>
               (case write_bytes w out_path b st1 of
                  (Inl e, st2) \<Rightarrow> (Inl e, st2)
                | (Inr u, st2) \<Rightarrow>
                    (case file_size_mb st2 out_path of
                       Inl e \<Rightarrow> (Inl e, st2)
                     | Inr mb \<Rightarrow> (Inr (True, best_q, Some mb), st2)))))"

text \<open>
  \<^verbatim>\<open>img.save(out_path, format="PNG", optimize=True, compress_level=9)\<close>: the file is
  opened for writing, which empties it, and the encoder writes into it. When the encoder
  raises, the emptied file stays.
\<close>

definition save_png_to :: "world \<Rightarrow> image \<Rightarrow> path \<Rightarrow> state \<Rightarrow> (exn + unit) \<times> state" where
  "save_png_to w img out_path st =
     (case write_error w out_path of
        Some e \<Rightarrow> (Inl e, st)
      | None \<Rightarrow>
          (let st1 = st\<lparr>log := log st @ [EncodePNG out_path True 9]\<rparr> in
           case save_png w (pixels img) True 9 of
             Inl e \<Rightarrow> (Inl e, st1\<lparr>fs := (fs st1)(out_path \<mapsto> [])\<rparr>)
           | Inr b \<Rightarrow> (Inr (), st1\<lparr>fs := (fs st1)(out_path \<mapsto> b)\<rparr>)))"

definition compress_png ::
  "world \<Rightarrow> image \<Rightarrow> path \<Rightarrow> real \<Rightarrow> state \<Rightarrow> (exn + bool \<times> real) \<times> state" where
  "compress_png w img out_path tgt st =
     (case save_png_to w img out_path st of
        (Inl e, st1) \<Rightarrow> (Inl e, st1)
      | (Inr u, st1) \<Rightarrow>
          (case file_size_mb st1 out_path of
             Inl e \<Rightarrow> (Inl e, st1)
           | Inr new_mb \<Rightarrow> (Inr (new_mb \<le> tgt, new_mb), st1)))"

section \<open>Core routine\<close>

text \<open>\<^verbatim>\<open>Image.open(path)\<close>: the file is read and handed to the decoder.\<close>

definition open_image :: "world \<Rightarrow> path \<Rightarrow> state \<Rightarrow> (exn + image) \<times> state" where
  "open_image w p st =
     (case fs st p of
        None \<Rightarrow> (Inl (Exn ''No such file or directory''), st)
      | Some b \<Rightarrow> (image_open w b, st\<lparr>log := log st @ [Decode p]\<rparr>))"

text \<open>Line 90: where the result goes.\<close>

definition out_path :: "args \<Rightarrow> path \<Rightarrow> exn + path" where
  "out_path a p = (if overwrite a then Inr p else with_stem p (stem p @ ''_compressed''))"

definition skip_label :: string where
  "skip_label = ''skip ('' @ le_sign @ ''19 MB)''"

definition jpeg_label :: "args \<Rightarrow> bool \<Rightarrow> int option \<Rightarrow> string" where
  "jpeg_label a ok q =
     (if ok then ''JPEG '' @ check_mark @ '' (q='' @ str_opt_int q @ '')''
      else ''JPEG '' @ ballot_x @ '' ('' @ ge_sign @ ''q'' @ str_int (min_quality a)
             @ '' still big)'')"

definition png_label :: "bool \<Rightarrow> string" where
  "png_label ok = (if ok then ''PNG '' @ check_mark else ''PNG '' @ ballot_x @ '' (still big)'')"

text \<open>\<^verbatim>\<open>new_mb or orig_mb\<close>: \<^verbatim>\<open>None\<close> and \<^verbatim>\<open>0.0\<close> are both false.\<close>

definition or_mb :: "real option \<Rightarrow> real \<Rightarrow> real" where
  "or_mb new_mb orig_mb =
     (case new_mb of None \<Rightarrow> orig_mb | Some m \<Rightarrow> if m = 0 then orig_mb else m)"

text \<open>The body of the \<^verbatim>\<open>try\<close> statement of \<^verbatim>\<open>process_one\<close>, lines 85 to 105.\<close>

definition process_body ::
  "world \<Rightarrow> args \<Rightarrow> path \<Rightarrow> real \<Rightarrow> state \<Rightarrow> (exn + string \<times> real) \<times> state" where
  "process_body w a p orig_mb st =
     (case open_image w p st of
        (Inl e, st1) \<Rightarrow> (Inl e, st1)
      | (Inr img0, st1) \<Rightarrow>
          (let fmt = format img0;
               st2 = st1\<lparr>log := log st1 @ [Transpose]\<rparr>
           in case exif_transpose w img0 of
                Inl e \<Rightarrow> (Inl e, st2)
              | Inr img1 \<Rightarrow>
                  (let img = img1\<lparr>format := fmt\<rparr> in
                   case out_path a p of
                     Inl e \<Rightarrow> (Inl e, st2)
                   | Inr out \<Rightarrow>
                       (if fmt = Some ''JPEG'' then
                          (case compress_jpeg w img out (target_mb a) (min_quality a) 100 st2 of
                             (Inl e, st3) \<Rightarrow> (Inl e, st3)
                           | (Inr (ok, q, new_mb), st3) \<Rightarrow>
                               (Inr (jpeg_label a ok q, or_mb new_mb orig_mb), st3))
                        else if fmt = Some ''PNG'' then
                          (case compress_png w img out (target_mb a) st2 of
                             (Inl e, st3) \<Rightarrow> (Inl e, st3)
                           | (Inr (ok, new_mb), st3) \<Rightarrow> (Inr (png_label ok, new_mb), st3))
                        else (Inr (str_opt fmt @ '' unsupported'', orig_mb), st2)))))"

text \<open>
  \<^verbatim>\<open>process_one\<close>. The first \<^verbatim>\<open>file_size_mb\<close> is outside the \<^verbatim>\<open>try\<close>, so its
  exception leaves the function; every exception of the body becomes a label.
\<close>

definition process_one ::
  "world \<Rightarrow> args \<Rightarrow> path \<Rightarrow> state \<Rightarrow> (exn + string \<times> real) \<times> state" where
  "process_one w a p st =
     (case file_size_mb st p of
        Inl e \<Rightarrow> (Inl e, st)
      | Inr orig_mb \<Rightarrow>
          (if orig_mb \<le> 19 then (Inr (skip_label, orig_mb), st)
           else (case process_body w a p orig_mb st of
                   (Inl (Exn m), st') \<Rightarrow> (Inr (''error: '' @ m, orig_mb), st')
                 | (Inr r, st') \<Rightarrow> (Inr r, st'))))"

section \<open>Command line entry\<close>





section \<open>Notions used in the statements\<close>

text \<open>
  What one encode of the image at quality \<open>q\<close> leaves in the buffer (lines 57 to 60 of
  \<^verbatim>\<open>compress_jpeg\<close>); it does not depend on the state the encode starts in.
\<close>

definition jpeg_bytes :: "world \<Rightarrow> image \<Rightarrow> int \<Rightarrow> exn + bytes" where
  "jpeg_bytes w img q = fst (encode_jpeg_at w img q \<lparr>fs = Map.empty, log = [], console = []\<rparr>)"

text \<open>The test of line 62: the encode at quality \<open>q\<close> returns and meets the target.\<close>

definition fits :: "world \<Rightarrow> image \<Rightarrow> real \<Rightarrow> int \<Rightarrow> bool" where
  "fits w img tgt q =
     (case jpeg_bytes w img q of Inl e \<Rightarrow> False | Inr b \<Rightarrow> real (length b) / MiB \<le> tgt)"

text \<open>The image after \<^verbatim>\<open>strip_orientation\<close> has updated its EXIF dictionary.\<close>

definition stripped :: "world \<Rightarrow> image \<Rightarrow> image" where
  "stripped w img = img\<lparr>exif := fst (strip_orientation w (exif img))\<rparr>"

text \<open>
  The brute-force search of the specification: scan the qualities from \<open>max_q\<close> down to
  \<open>min_q\<close> and take the first whose encode meets the target.
\<close>

definition brute_force_quality :: "world \<Rightarrow> image \<Rightarrow> real \<Rightarrow> int \<Rightarrow> int \<Rightarrow> int option" where
  "brute_force_quality w img tgt min_q max_q = find (fits w img tgt) (rev [min_q..max_q])"

text \<open>The events a computation added to the log.\<close>

definition new_events :: "state \<Rightarrow> state \<Rightarrow> event list" where
  "new_events st st' = drop (length (log st)) (log st')"

text \<open>
  The world in which the image that the transposition returns carries the format tag
  \<open>f\<close> (Pillow leaves \<^verbatim>\<open>None\<close> there); everything else is as in \<open>w\<close>.
\<close>

definition with_transposed_format :: "string option \<Rightarrow> world \<Rightarrow> world" where
  "with_transposed_format f w =
     w\<lparr>exif_transpose := \<lambda>i. map_sum id (\<lambda>im. im\<lparr>format := f\<rparr>) (exif_transpose w i)\<rparr>"

section \<open>Concrete instances\<close>

text \<open>
  A small world for the examples: a JPEG file of 20000000 bytes whose image carries the
  orientation tag, an encoder whose output has as many bytes as the quality, and a target
  of 90 bytes.
\<close>

definition demo_path :: path where
  "demo_path = \<lparr>parent = ''/photos'', name = ''big.jpg''\<rparr>"

definition demo_out :: path where
  "demo_out = \<lparr>parent = ''/photos'', name = ''big_compressed.jpg''\<rparr>"

definition demo_image :: image where
  "demo_image = \<lparr>format = Some ''JPEG'', pixels = [1, 2, 3], exif = [ORIENT \<mapsto> 6],
                  icc_profile = None\<rparr>"

definition demo_open :: "bytes \<Rightarrow> exn + image" where
  "demo_open b = Inr demo_image"

definition demo_transpose :: "image \<Rightarrow> exn + image" where
  "demo_transpose img = Inr (img\<lparr>format := None\<rparr>)"

definition demo_tobytes :: "exif \<Rightarrow> exn + bytes" where
  "demo_tobytes ex = Inr (case ex ORIENT of None \<Rightarrow> [] | Some v \<Rightarrow> [word_of_int v])"

definition demo_save_jpeg :: "nat list \<Rightarrow> int \<Rightarrow> bool \<Rightarrow> bytes \<Rightarrow> bytes option \<Rightarrow> exn + bytes" where
  "demo_save_jpeg px q opt eb icc = Inr (replicate (nat q) 0)"

definition demo_save_png :: "nat list \<Rightarrow> bool \<Rightarrow> nat \<Rightarrow> exn + bytes" where
  "demo_save_png px opt lvl = Inr (replicate 100 0)"

definition demo_write_error :: "path \<Rightarrow> exn option" where
  "demo_write_error p = None"

definition demo_is_dir :: "string \<Rightarrow> bool" where
  "demo_is_dir d = True"

definition demo_rglob :: "string \<Rightarrow> path list" where
  "demo_rglob d = [demo_path]"

definition demo_world :: world where
  "demo_world = \<lparr>image_open = demo_open, exif_transpose = demo_transpose,
                  tobytes = demo_tobytes, save_jpeg = demo_save_jpeg, save_png = demo_save_png,
                  write_error = demo_write_error, is_dir = demo_is_dir, rglob = demo_rglob\<rparr>"

definition demo_state :: state where
  "demo_state = \<lparr>fs = [demo_path \<mapsto> replicate 20000000 0], log = [], console = []\<rparr>"

definition demo_args :: args where
  "demo_args = \<lparr>folder = ''/photos'', target_mb = 90 / MiB, min_quality = 85, overwrite = False\<rparr>"

text \<open>
  An encoder whose size is not monotone in the quality: one byte at quality 100 and below
  90, three bytes from 90 to 99. The target is two bytes.
\<close>

definition odd_save_jpeg :: "nat list \<Rightarrow> int \<Rightarrow> bool \<Rightarrow> bytes \<Rightarrow> bytes option \<Rightarrow> exn + bytes" where
  "odd_save_jpeg px q opt eb icc = Inr (if q = 100 \<or> q < 90 then [0] else [0, 0, 0])"

definition odd_world :: world where
  "odd_world = demo_world\<lparr>save_jpeg := odd_save_jpeg\<rparr>"

text \<open>An encoder that never meets the target of 90 bytes: 200 bytes at every quality.\<close>

definition big_save_jpeg :: "nat list \<Rightarrow> int \<Rightarrow> bool \<Rightarrow> bytes \<Rightarrow> bytes option \<Rightarrow> exn + bytes" where
  "big_save_jpeg px q opt eb icc = Inr (replicate 200 0)"

definition big_world :: world where
  "big_world = demo_world\<lparr>save_jpeg := big_save_jpeg\<rparr>"

text \<open>A decoder that raises, and a PNG file.\<close>

definition broken_open :: "bytes \<Rightarrow> exn + image" where
  "broken_open b = Inl (Exn ''cannot identify image file'')"

definition broken_world :: world where
  "broken_world = demo_world\<lparr>image_open := broken_open\<rparr>"

definition png_open :: "bytes \<Rightarrow> exn + image" where
  "png_open b = Inr (demo_image\<lparr>format := Some ''PNG''\<rparr>)"

definition png_world :: world where
  "png_world = demo_world\<lparr>image_open := png_open\<rparr>"

text \<open>
  Two files in the folder, the first of which the decoder rejects (it tells the files
  apart by their length).
\<close>

definition bad_path :: path where
  "bad_path = \<lparr>parent = ''/photos'', name = ''bad.jpg''\<rparr>"

definition picky_open :: "bytes \<Rightarrow> exn + image" where
  "picky_open b =
     (if length b = 20000001 then Inl (Exn ''cannot identify image file'') else Inr demo_image)"

definition picky_rglob :: "string \<Rightarrow> path list" where
  "picky_rglob d = [bad_path, demo_path]"

definition picky_world :: world where
  "picky_world = demo_world\<lparr>image_open := picky_open, rglob := picky_rglob\<rparr>"

definition picky_state :: state where
  "picky_state = \<lparr>fs = [bad_path \<mapsto> replicate 20000001 0, demo_path \<mapsto> replicate 20000000 0],
                   log = [], console = []\<rparr>"

section \<open>Lemmas on one encode\<close>

lemma strip_idem:
  "fst (strip_orientation w (fst (strip_orientation w ex))) = fst (strip_orientation w ex)"
  by (simp add: strip_orientation_def Let_def split: option.splits)

lemma strip_eq:
  "strip_orientation w ex =
     (fst (strip_orientation w ex), tobytes w (fst (strip_orientation w ex)))"
  by (simp add: strip_orientation_def Let_def)

lemma stripped_idem: "stripped w (stripped w img) = stripped w img"
  by (simp add: stripped_def strip_idem)

lemma stripped_fields:
  "pixels (stripped w img) = pixels img"
  "icc_profile (stripped w img) = icc_profile img"
  "format (stripped w img) = format img"
  by (simp_all add: stripped_def)

lemma encode_jpeg_at_eq:
  "encode_jpeg_at w img q st =
     (case tobytes w (exif (stripped w img)) of
        Inl e \<Rightarrow> (Inl e, stripped w img, st)
      | Inr eb \<Rightarrow> (save_jpeg w (pixels img) q True eb (icc_profile img), stripped w img,
                  st\<lparr>log := log st @ [EncodeJPEG q True eb (icc_profile img)]\<rparr>))"
  unfolding encode_jpeg_at_def stripped_def
  by (subst strip_eq) (simp add: Let_def split: sum.splits)

lemma encode_fst: "fst (encode_jpeg_at w img q st) = jpeg_bytes w img q"
  by (simp add: jpeg_bytes_def encode_jpeg_at_eq split: sum.splits)

lemma encode_img: "fst (snd (encode_jpeg_at w img q st)) = stripped w img"
  by (simp add: encode_jpeg_at_eq split: sum.splits)

lemma encode_fs: "fs (snd (snd (encode_jpeg_at w img q st))) = fs st"
  by (simp add: encode_jpeg_at_eq split: sum.splits)

lemma encode_console: "console (snd (snd (encode_jpeg_at w img q st))) = console st"
  by (simp add: encode_jpeg_at_eq split: sum.splits)

lemma encode_log:
  "log (snd (snd (encode_jpeg_at w img q st))) =
     log st @ (case tobytes w (exif (stripped w img)) of
                 Inl e \<Rightarrow> []
               | Inr eb \<Rightarrow> [EncodeJPEG q True eb (icc_profile img)])"
  by (simp add: encode_jpeg_at_eq split: sum.splits)

lemma encode_triple:
  "encode_jpeg_at w img q st = (r, i, s) \<Longrightarrow>
     r = jpeg_bytes w img q \<and> i = stripped w img \<and> fs s = fs st \<and> console s = console st \<and>
     log s = log st @ (case tobytes w (exif (stripped w img)) of
                         Inl e \<Rightarrow> []
                       | Inr eb \<Rightarrow> [EncodeJPEG q True eb (icc_profile img)])"
  using encode_fst[of w img q st] encode_img[of w img q st] encode_fs[of w img q st]
    encode_console[of w img q st] encode_log[of w img q st]
  by simp

lemma jpeg_bytes_stripped: "jpeg_bytes w (stripped w img) q = jpeg_bytes w img q"
  unfolding jpeg_bytes_def encode_jpeg_at_eq stripped_idem
  by (simp add: stripped_def split: sum.splits)

lemma fits_stripped: "fits w (stripped w img) tgt q = fits w img tgt q"
  by (simp add: fits_def jpeg_bytes_stripped)

section \<open>Lemmas on the search\<close>

lemma jpeg_search_exit:
  "\<not> lo \<le> hi \<Longrightarrow> jpeg_search w tgt img lo hi bb bq st = (Inr (lo, hi, bb, bq), st)"
  by (simp add: jpeg_search.simps)

lemma jpeg_search_step:
  assumes "lo \<le> hi" and "encode_jpeg_at w img ((lo + hi) div 2) st = (r, i, s)"
  shows "jpeg_search w tgt img lo hi bb bq st =
     (case jpeg_bytes w img ((lo + hi) div 2) of
        Inl e \<Rightarrow> (Inl e, s)
      | Inr buf \<Rightarrow>
          if real (length buf) / MiB \<le> tgt
          then jpeg_search w tgt (stripped w img) ((lo + hi) div 2 + 1) hi (Some buf)
                 (Some ((lo + hi) div 2)) s
          else jpeg_search w tgt (stripped w img) lo ((lo + hi) div 2 - 1) bb bq s)"
  using assms encode_triple[OF assms(2)]
  by (subst jpeg_search.simps) (simp add: Let_def split: sum.splits)

lemma jpeg_search_inv:
  "jpeg_search w tgt img lo hi bb bq st = (Inr (lo', hi', bb', bq'), st') \<Longrightarrow> lo \<le> hi + 1 \<Longrightarrow>
   lo' = hi' + 1 \<and> lo \<le> lo' \<and> hi' \<le> hi \<and>
   ((lo' = lo \<and> bb' = bb \<and> bq' = bq) \<or>
    (lo < lo' \<and> bq' = Some hi' \<and>
     (\<exists>b. bb' = Some b \<and> jpeg_bytes w img hi' = Inr b \<and> real (length b) / MiB \<le> tgt))) \<and>
   (hi' = hi \<or> (\<exists>b. jpeg_bytes w img (hi' + 1) = Inr b \<and> \<not> real (length b) / MiB \<le> tgt))"
proof (induction w tgt img lo hi bb bq st rule: jpeg_search.induct)
  case (1 w tgt img lo hi bb bq st)
  show ?case
  proof (cases "lo \<le> hi")
    case False
    with "1.prems" show ?thesis by (simp add: jpeg_search_exit)
  next
    case True
    define q where "q = (lo + hi) div 2"
    have qb: "lo \<le> q" "q \<le> hi" using True by (simp_all add: q_def)
    obtain r i s where enc: "encode_jpeg_at w img q st = (r, i, s)"
      by (cases "encode_jpeg_at w img q st") auto
    note tr = encode_triple[OF enc]
    have i: "i = stripped w img" using tr by simp
    note step = jpeg_search_step[OF True enc[unfolded q_def], of tgt bb bq, folded q_def]
    show ?thesis
    proof (cases r)
      case (Inl e)
      then have "jpeg_bytes w img q = Inl e" using tr by simp
      with "1.prems" step show ?thesis by simp
    next
      case (Inr buf)
      then have jb: "jpeg_bytes w img q = Inr buf" using tr by simp
      show ?thesis
      proof (cases "real (length buf) / MiB \<le> tgt")
        case fit: True
        have rec: "jpeg_search w tgt i (q + 1) hi (Some buf) (Some q) s = (Inr (lo', hi', bb', bq'), st')"
          using "1.prems"(1) step jb fit i by simp
        have pre: "q + 1 \<le> hi + 1" using qb by simp
        note ih = "1.IH"(1)[OF True q_def enc[symmetric] Inr refl fit rec pre, unfolded i jpeg_bytes_stripped]
        from ih have a: "lo' = hi' + 1" "q + 1 \<le> lo'" "hi' \<le> hi" by simp_all
        from ih have b: "(lo' = q + 1 \<and> bb' = Some buf \<and> bq' = Some q) \<or>
             (q + 1 < lo' \<and> bq' = Some hi' \<and>
              (\<exists>b. bb' = Some b \<and> jpeg_bytes w img hi' = Inr b \<and> real (length b) / MiB \<le> tgt))"
          by blast
        from ih have c: "hi' = hi \<or> (\<exists>b. jpeg_bytes w img (hi' + 1) = Inr b \<and> \<not> real (length b) / MiB \<le> tgt)"
          by blast
        have b': "lo < lo' \<and> bq' = Some hi' \<and>
              (\<exists>b. bb' = Some b \<and> jpeg_bytes w img hi' = Inr b \<and> real (length b) / MiB \<le> tgt)"
        proof -
          from b show ?thesis
          proof
            assume h: "lo' = q + 1 \<and> bb' = Some buf \<and> bq' = Some q"
            then have "hi' = q" using a by simp
            then show ?thesis using h jb fit qb by simp
          next
            assume "q + 1 < lo' \<and> bq' = Some hi' \<and>
              (\<exists>b. bb' = Some b \<and> jpeg_bytes w img hi' = Inr b \<and> real (length b) / MiB \<le> tgt)"
            then show ?thesis using qb by simp
          qed
        qed
        have "lo \<le> lo'" using a qb by simp
        then show ?thesis using a b' c by blast
      next
        case nofit: False
        have rec: "jpeg_search w tgt i lo (q - 1) bb bq s = (Inr (lo', hi', bb', bq'), st')"
          using "1.prems"(1) step jb nofit i by simp
        have pre: "lo \<le> q - 1 + 1" using qb by simp
        note ih = "1.IH"(2)[OF True q_def enc[symmetric] Inr refl nofit rec pre, unfolded i jpeg_bytes_stripped]
        from ih have a: "lo' = hi' + 1" "lo \<le> lo'" "hi' \<le> q - 1" by simp_all
        from ih have b: "(lo' = lo \<and> bb' = bb \<and> bq' = bq) \<or>
             (lo < lo' \<and> bq' = Some hi' \<and>
              (\<exists>b. bb' = Some b \<and> jpeg_bytes w img hi' = Inr b \<and> real (length b) / MiB \<le> tgt))"
          by blast
        from ih have c: "hi' = q - 1 \<or> (\<exists>b. jpeg_bytes w img (hi' + 1) = Inr b \<and> \<not> real (length b) / MiB \<le> tgt)"
          by blast
        have c': "\<exists>b. jpeg_bytes w img (hi' + 1) = Inr b \<and> \<not> real (length b) / MiB \<le> tgt"
        proof -
          from c show ?thesis
          proof
            assume "hi' = q - 1"
            then show ?thesis using jb nofit by simp
          qed
        qed
        have "hi' \<le> hi" using a qb by simp
        then show ?thesis using a b c' by blast
      qed
    qed
  qed
qed

text \<open>What the search does to the state, whatever its outcome.\<close>

lemma jpeg_search_state:
  "jpeg_search w tgt img lo hi bb bq st = (res, st') \<Longrightarrow>
   fs st' = fs st \<and> console st' = console st \<and>
   (\<exists>evs. log st' = log st @ evs \<and> length evs \<le> nat (hi - lo + 1) \<and>
      (\<forall>ev \<in> set evs. \<exists>q eb. ev = EncodeJPEG q True eb (icc_profile img) \<and> lo \<le> q \<and> q \<le> hi \<and>
         tobytes w (exif (stripped w img)) = Inr eb))"
proof (induction w tgt img lo hi bb bq st rule: jpeg_search.induct)
  case (1 w tgt img lo hi bb bq st)
  show ?case
  proof (cases "lo \<le> hi")
    case False
    with "1.prems" show ?thesis by (simp add: jpeg_search_exit)
  next
    case True
    define q where "q = (lo + hi) div 2"
    have qb: "lo \<le> q" "q \<le> hi" using True by (simp_all add: q_def)
    obtain r i s where enc: "encode_jpeg_at w img q st = (r, i, s)"
      by (cases "encode_jpeg_at w img q st") auto
    note tr = encode_triple[OF enc]
    note step = jpeg_search_step[OF True enc[unfolded q_def], of tgt bb bq, folded q_def]
    define ev1 where "ev1 = (case tobytes w (exif (stripped w img)) of
                         Inl e \<Rightarrow> []
                       | Inr eb \<Rightarrow> [EncodeJPEG q True eb (icc_profile img)])"
    have s: "fs s = fs st" "console s = console st" "log s = log st @ ev1"
      using tr by (simp_all add: ev1_def)
    have ev1: "length ev1 \<le> 1"
      "\<forall>ev \<in> set ev1. \<exists>q eb. ev = EncodeJPEG q True eb (icc_profile img) \<and> lo \<le> q \<and> q \<le> hi \<and>
         tobytes w (exif (stripped w img)) = Inr eb"
      using qb by (auto simp: ev1_def split: sum.splits)
    show ?thesis
    proof (cases r)
      case (Inl e)
      then have "jpeg_bytes w img q = Inl e" using tr by simp
      then have "st' = s" using "1.prems" step by simp
      moreover have "length ev1 \<le> nat (hi - lo + 1)" using ev1(1) True by simp
      ultimately show ?thesis
        by (intro conjI exI[of _ ev1]) (simp_all add: s ev1(2))
    next
      case (Inr buf)
      then have jb: "jpeg_bytes w img q = Inr buf" using tr by simp
      have i: "i = stripped w img" using tr by simp
      show ?thesis
      proof (cases "real (length buf) / MiB \<le> tgt")
        case fit: True
        have rec: "jpeg_search w tgt i (q + 1) hi (Some buf) (Some q) s = (res, st')"
          using "1.prems"(1) step jb fit tr by simp
        from "1.IH"(1)[OF True q_def enc[symmetric] Inr refl fit rec]
        obtain evs where ih: "fs st' = fs s" "console st' = console s" "log st' = log s @ evs"
          "length evs \<le> nat (hi - (q + 1) + 1)"
          "\<forall>ev \<in> set evs. \<exists>q' eb. ev = EncodeJPEG q' True eb (icc_profile i) \<and> q + 1 \<le> q' \<and> q' \<le> hi \<and>
             tobytes w (exif (stripped w i)) = Inr eb"
          by auto
        have l1: "log st' = log st @ (ev1 @ evs)" using ih(3) s(3) by simp
        have l2: "length (ev1 @ evs) \<le> nat (hi - lo + 1)" using ih(4) ev1(1) qb by simp
        have l3: "\<forall>ev \<in> set (ev1 @ evs). \<exists>q eb. ev = EncodeJPEG q True eb (icc_profile img) \<and> lo \<le> q \<and> q \<le> hi \<and>
         tobytes w (exif (stripped w img)) = Inr eb"
        proof
          fix ev assume "ev \<in> set (ev1 @ evs)"
          then consider "ev \<in> set ev1" | "ev \<in> set evs" by auto
          then show "\<exists>q eb. ev = EncodeJPEG q True eb (icc_profile img) \<and> lo \<le> q \<and> q \<le> hi \<and>
             tobytes w (exif (stripped w img)) = Inr eb"
          proof cases
            case 1
            then show ?thesis using ev1(2) by blast
          next
            case 2
            then obtain q' eb where "ev = EncodeJPEG q' True eb (icc_profile i)" "q + 1 \<le> q'" "q' \<le> hi"
              "tobytes w (exif (stripped w i)) = Inr eb"
              using ih(5) by blast
            then show ?thesis using qb by (auto simp: i stripped_idem stripped_fields)
          qed
        qed
        have l4: "fs st' = fs st" "console st' = console st" using ih(1,2) s(1,2) by simp_all
        show ?thesis
          by (intro conjI exI[of _ "ev1 @ evs"]) (rule l4 l1 l2 l3)+
      next
        case nofit: False
        have rec: "jpeg_search w tgt i lo (q - 1) bb bq s = (res, st')"
          using "1.prems"(1) step jb nofit tr by simp
        from "1.IH"(2)[OF True q_def enc[symmetric] Inr refl nofit rec]
        obtain evs where ih: "fs st' = fs s" "console st' = console s" "log st' = log s @ evs"
          "length evs \<le> nat (q - 1 - lo + 1)"
          "\<forall>ev \<in> set evs. \<exists>q' eb. ev = EncodeJPEG q' True eb (icc_profile i) \<and> lo \<le> q' \<and> q' \<le> q - 1 \<and>
             tobytes w (exif (stripped w i)) = Inr eb"
          by auto
        have l1: "log st' = log st @ (ev1 @ evs)" using ih(3) s(3) by simp
        have l2: "length (ev1 @ evs) \<le> nat (hi - lo + 1)" using ih(4) ev1(1) qb by simp
        have l3: "\<forall>ev \<in> set (ev1 @ evs). \<exists>q eb. ev = EncodeJPEG q True eb (icc_profile img) \<and> lo \<le> q \<and> q \<le> hi \<and>
         tobytes w (exif (stripped w img)) = Inr eb"
        proof
          fix ev assume "ev \<in> set (ev1 @ evs)"
          then consider "ev \<in> set ev1" | "ev \<in> set evs" by auto
          then show "\<exists>q eb. ev = EncodeJPEG q True eb (icc_profile img) \<and> lo \<le> q \<and> q \<le> hi \<and>
             tobytes w (exif (stripped w img)) = Inr eb"
          proof cases
            case 1
            then show ?thesis using ev1(2) by blast
          next
            case 2
            then obtain q' eb where "ev = EncodeJPEG q' True eb (icc_profile i)" "lo \<le> q'" "q' \<le> q - 1"
              "tobytes w (exif (stripped w i)) = Inr eb"
              using ih(5) by blast
            then show ?thesis using qb by (auto simp: i stripped_idem stripped_fields)
          qed
        qed
        have l4: "fs st' = fs st" "console st' = console st" using ih(1,2) s(1,2) by simp_all
        show ?thesis
          by (intro conjI exI[of _ "ev1 @ evs"]) (rule l4 l1 l2 l3)+
      qed
    qed
  qed
qed

text \<open>When every encode of the range returns, the search returns.\<close>

lemma jpeg_search_returns:
  "(\<forall>q. lo \<le> q \<and> q \<le> hi \<longrightarrow> (\<exists>b. jpeg_bytes w img q = Inr b)) \<Longrightarrow>
   \<exists>r st'. jpeg_search w tgt img lo hi bb bq st = (Inr r, st')"
proof (induction w tgt img lo hi bb bq st rule: jpeg_search.induct)
  case (1 w tgt img lo hi bb bq st)
  show ?case
  proof (cases "lo \<le> hi")
    case False
    then show ?thesis by (simp add: jpeg_search_exit)
  next
    case True
    define q where "q = (lo + hi) div 2"
    have qb: "lo \<le> q" "q \<le> hi" using True by (simp_all add: q_def)
    obtain r i s where enc: "encode_jpeg_at w img q st = (r, i, s)"
      by (cases "encode_jpeg_at w img q st") auto
    note tr = encode_triple[OF enc]
    note step = jpeg_search_step[OF True enc[unfolded q_def], of tgt bb bq, folded q_def]
    obtain buf where jb: "jpeg_bytes w img q = Inr buf" using "1.prems" qb by blast
    then have r: "r = Inr buf" using tr by simp
    have i: "i = stripped w img" using tr by simp
    have all: "\<forall>q'. lo \<le> q' \<and> q' \<le> hi \<longrightarrow> (\<exists>b. jpeg_bytes w i q' = Inr b)"
      using "1.prems" by (simp add: i jpeg_bytes_stripped)
    show ?thesis
    proof (cases "real (length buf) / MiB \<le> tgt")
      case fit: True
      have "\<exists>r st'. jpeg_search w tgt i (q + 1) hi (Some buf) (Some q) s = (Inr r, st')"
        using "1.IH"(1)[OF True q_def enc[symmetric] r refl fit] all qb by simp
      then show ?thesis using step jb fit i by simp
    next
      case nofit: False
      have "\<exists>r st'. jpeg_search w tgt i lo (q - 1) bb bq s = (Inr r, st')"
        using "1.IH"(2)[OF True q_def enc[symmetric] r refl nofit] all qb by simp
      then show ?thesis using step jb nofit i by simp
    qed
  qed
qed

section \<open>Facts shared by the claims\<close>

lemmas demo_defs = demo_path_def demo_out_def demo_image_def demo_open_def demo_transpose_def
  demo_tobytes_def demo_save_jpeg_def demo_save_png_def demo_write_error_def demo_is_dir_def
  demo_rglob_def demo_world_def demo_state_def demo_args_def odd_save_jpeg_def odd_world_def
  big_save_jpeg_def big_world_def broken_open_def broken_world_def png_open_def png_world_def
  bad_path_def picky_open_def picky_rglob_def picky_world_def picky_state_def

lemmas jpeg_eval = compress_jpeg_def jpeg_search.simps encode_jpeg_at_def strip_orientation_def
  write_bytes_def file_size_mb_def Let_def MiB_def ORIENT_def new_events_def

lemma new_events_append: "log st' = log st @ evs \<Longrightarrow> new_events st st' = evs"
  by (simp add: new_events_def)

lemma jpeg_search_exit_order:
  assumes "jpeg_search w tgt img lo hi bb bq st = (Inr (lo', hi', bb', bq'), st')"
  shows "hi' < lo'"
proof (cases "lo \<le> hi")
  case True
  then have "lo \<le> hi + 1" by simp
  from jpeg_search_inv[OF assms this] show ?thesis by simp
next
  case False
  with assms show ?thesis by (simp add: jpeg_search_exit)
qed

section \<open>The claims\<close>

subsection \<open>Termination of the quality search\<close>

text \<open>
  Claim C7. The binary search over the JPEG quality ends for every \<open>min_q \<le> max_q\<close>: an
  iteration probes \<open>q = (lo + hi) div 2\<close>, which lies in the interval, and goes on with
  \<open>lo = q + 1\<close> or with \<open>hi = q - 1\<close>, either of which makes the interval strictly shorter;
  when the loop is left normally \<open>hi < lo\<close>; and the whole search makes at most
  \<open>max_q - min_q + 1\<close> encodes. (The function \<open>jpeg_search\<close> itself is total by its
  termination proof, with the length of the interval as measure.)
\<close>

theorem jpeg_search_terminates:
  assumes "min_q \<le> max_q"
  shows "(let q = (min_q + max_q) div 2 in
            min_q \<le> q \<and> q \<le> max_q \<and>
            max_q - (q + 1) < max_q - min_q \<and> (q - 1) - min_q < max_q - min_q \<and>
            jpeg_search w tgt img min_q max_q bb bq st =
              (case encode_jpeg_at w img q st of
                 (Inl e, img', st') \<Rightarrow> (Inl e, st')
               | (Inr buf, img', st') \<Rightarrow>
                   if real (length buf) / MiB \<le> tgt
                   then jpeg_search w tgt img' (q + 1) max_q (Some buf) (Some q) st'
                   else jpeg_search w tgt img' min_q (q - 1) bb bq st')) \<and>
         (case fst (jpeg_search w tgt img min_q max_q bb bq st) of
            Inl e \<Rightarrow> True
          | Inr (lo', hi', bb', bq') \<Rightarrow> hi' < lo') \<and>
         length (new_events st (snd (jpeg_search w tgt img min_q max_q bb bq st)))
           \<le> nat (max_q - min_q + 1)"
proof (intro conjI)
  show "let q = (min_q + max_q) div 2 in
            min_q \<le> q \<and> q \<le> max_q \<and>
            max_q - (q + 1) < max_q - min_q \<and> (q - 1) - min_q < max_q - min_q \<and>
            jpeg_search w tgt img min_q max_q bb bq st =
              (case encode_jpeg_at w img q st of
                 (Inl e, img', st') \<Rightarrow> (Inl e, st')
               | (Inr buf, img', st') \<Rightarrow>
                   if real (length buf) / MiB \<le> tgt
                   then jpeg_search w tgt img' (q + 1) max_q (Some buf) (Some q) st'
                   else jpeg_search w tgt img' min_q (q - 1) bb bq st')"
  proof -
    define q where "q = (min_q + max_q) div 2"
    have qb: "min_q \<le> q" "q \<le> max_q" using assms by (simp_all add: q_def)
    have shrink: "max_q - (q + 1) < max_q - min_q" "(q - 1) - min_q < max_q - min_q"
      using qb by linarith+
    have "jpeg_search w tgt img min_q max_q bb bq st =
              (case encode_jpeg_at w img q st of
                 (Inl e, img', st') \<Rightarrow> (Inl e, st')
               | (Inr buf, img', st') \<Rightarrow>
                   if real (length buf) / MiB \<le> tgt
                   then jpeg_search w tgt img' (q + 1) max_q (Some buf) (Some q) st'
                   else jpeg_search w tgt img' min_q (q - 1) bb bq st')"
      unfolding q_def using assms by (subst jpeg_search.simps) (simp add: Let_def)
    with qb shrink show ?thesis unfolding Let_def q_def by blast
  qed
next
  obtain res st' where eq: "jpeg_search w tgt img min_q max_q bb bq st = (res, st')"
    by (cases "jpeg_search w tgt img min_q max_q bb bq st") auto
  show "case fst (jpeg_search w tgt img min_q max_q bb bq st) of
            Inl e \<Rightarrow> True
          | Inr (lo', hi', bb', bq') \<Rightarrow> hi' < lo'"
    using jpeg_search_exit_order[of w tgt img min_q max_q bb bq st] eq
    by (cases res) auto
  from jpeg_search_state[OF eq] obtain evs where
    "log st' = log st @ evs" "length evs \<le> nat (max_q - min_q + 1)" by blast
  then show "length (new_events st (snd (jpeg_search w tgt img min_q max_q bb bq st)))
           \<le> nat (max_q - min_q + 1)"
    using eq by (simp add: new_events_append)
qed

theorem jpeg_search_terminates_witness:
  "(85::int) \<le> 100 \<and>
   fst (jpeg_search demo_world (90 / MiB) demo_image 85 100 None None demo_state)
     = Inr (91, 90, Some (replicate 90 0), Some 90) \<and>
   length (new_events demo_state
      (snd (jpeg_search demo_world (90 / MiB) demo_image 85 100 None None demo_state))) \<le> 16"
  using jpeg_search_terminates[of 85 100 demo_world "90 / MiB" demo_image None None demo_state]
  by (simp add: jpeg_eval demo_defs)

subsection \<open>No write when the search fails\<close>

text \<open>
  Claim C3. When \<^verbatim>\<open>compress_jpeg\<close> reports failure (\<open>best_bytes\<close> is still \<^verbatim>\<open>None\<close> after
  the search) it has written no file: the file system is the one it started with, for
  every path and so for the original file when the output path is the original
  (overwrite mode), and the only calls it has made are JPEG encodes into memory. The
  quality and the size it returns are \<^verbatim>\<open>None\<close>.
\<close>

theorem compress_jpeg_failure_no_write:
  assumes "compress_jpeg w img out tgt min_q max_q st = (Inr (False, q, mb), st')"
  shows "fs st' = fs st \<and> q = None \<and> mb = None \<and>
         (\<forall>ev \<in> set (new_events st st'). \<exists>q' eb. ev = EncodeJPEG q' True eb (icc_profile img))"
proof -
  obtain res st1 where eq: "jpeg_search w tgt img min_q max_q None None st = (res, st1)"
    by (cases "jpeg_search w tgt img min_q max_q None None st") auto
  from jpeg_search_state[OF eq] obtain evs where st1: "fs st1 = fs st" "log st1 = log st @ evs"
    "\<forall>ev \<in> set evs. \<exists>q eb. ev = EncodeJPEG q True eb (icc_profile img) \<and> min_q \<le> q \<and> q \<le> max_q \<and>
         tobytes w (exif (stripped w img)) = Inr eb"
    by blast
  have "st' = st1 \<and> q = None \<and> mb = None"
    using assms eq
    by (auto simp: compress_jpeg_def split: sum.splits prod.splits option.splits)
  then show ?thesis using st1 by (auto simp: new_events_append)
qed

theorem compress_jpeg_failure_no_write_witness:
  "fst (compress_jpeg big_world demo_image demo_path (90 / MiB) 85 100 demo_state)
     = Inr (False, None, None) \<and>
   fs (snd (compress_jpeg big_world demo_image demo_path (90 / MiB) 85 100 demo_state)) demo_path
     = Some (replicate 20000000 0)"
  using compress_jpeg_failure_no_write[of big_world demo_image demo_path "90 / MiB" 85 100
      demo_state None None
      "snd (compress_jpeg big_world demo_image demo_path (90 / MiB) 85 100 demo_state)"]
  by (simp add: jpeg_eval demo_defs)

subsection \<open>Facts on the outcome of the search\<close>

lemma jpeg_bytes_format: "jpeg_bytes w (img\<lparr>format := f\<rparr>) q = jpeg_bytes w img q"
  by (simp add: jpeg_bytes_def encode_jpeg_at_def Let_def split: prod.splits sum.splits)

lemma find_rev_upto:
  "lo \<le> qv \<Longrightarrow> qv \<le> hi \<Longrightarrow> P qv \<Longrightarrow> (\<forall>q'. qv < q' \<and> q' \<le> hi \<longrightarrow> \<not> P q') \<Longrightarrow>
   find P (rev [lo..hi]) = Some qv"
proof (induction "nat (hi - qv)" arbitrary: hi)
  case 0
  then have "hi = qv" by simp
  moreover have "[lo..qv] = [lo..qv - 1] @ [qv]" using "0.prems"(1) by (rule upto_rec2)
  ultimately show ?case using "0.prems"(3) by simp
next
  case (Suc n)
  then have lt: "qv < hi" by simp
  then have "lo \<le> hi" using Suc.prems(1) by simp
  then have up: "[lo..hi] = [lo..hi - 1] @ [hi]" by (rule upto_rec2)
  have nP: "\<not> P hi" using Suc.prems(4) lt by simp
  have "find P (rev [lo..hi - 1]) = Some qv"
  proof (rule Suc.hyps(1))
    show "n = nat (hi - 1 - qv)" using Suc.hyps(2) by simp
    show "lo \<le> qv" by (rule Suc.prems(1))
    show "qv \<le> hi - 1" using lt by simp
    show "P qv" by (rule Suc.prems(3))
    show "\<forall>q'. qv < q' \<and> q' \<le> hi - 1 \<longrightarrow> \<not> P q'" using Suc.prems(4) by simp
  qed
  then show ?case using up nP by simp
qed

lemma find_rev_upto_None:
  "(\<forall>q. lo \<le> q \<and> q \<le> hi \<longrightarrow> \<not> P q) \<Longrightarrow> find P (rev [lo..hi]) = None"
  by (simp add: find_None_iff)

text \<open>What a successful \<^verbatim>\<open>compress_jpeg\<close> has done.\<close>

lemma compress_jpeg_success:
  assumes "compress_jpeg w img out tgt min_q max_q st = (Inr (True, q, mb), st')"
  shows "\<exists>qv b. q = Some qv \<and> mb = Some (real (length b) / MiB) \<and> min_q \<le> qv \<and> qv \<le> max_q \<and>
           jpeg_bytes w img qv = Inr b \<and> real (length b) / MiB \<le> tgt \<and>
           (qv = max_q \<or> (\<exists>b'. jpeg_bytes w img (qv + 1) = Inr b' \<and> \<not> real (length b') / MiB \<le> tgt)) \<and>
           fs st' = (fs st)(out \<mapsto> b)"
proof -
  obtain res st1 where eq: "jpeg_search w tgt img min_q max_q None None st = (res, st1)"
    by (cases "jpeg_search w tgt img min_q max_q None None st") auto
  have fs1: "fs st1 = fs st" using jpeg_search_state[OF eq] by simp
  from assms eq obtain lo' hi' b bq' where res: "res = Inr (lo', hi', Some b, bq')"
    by (auto simp: compress_jpeg_def split: sum.splits prod.splits option.splits)
  have out: "q = bq'" "mb = Some (real (length b) / MiB)" "fs st' = (fs st1)(out \<mapsto> b)"
    using assms eq res
    by (auto simp: compress_jpeg_def write_bytes_def file_size_mb_def
        split: sum.splits prod.splits option.splits)
  have run: "min_q \<le> max_q"
  proof (rule ccontr)
    assume "\<not> min_q \<le> max_q"
    then show False using eq res by (simp add: jpeg_search_exit)
  qed
  then have "min_q \<le> max_q + 1" by simp
  note inv = jpeg_search_inv[OF eq[unfolded res] this]
  from inv have a: "lo' = hi' + 1" "hi' \<le> max_q" by simp_all
  from inv have b: "min_q < lo' \<and> bq' = Some hi' \<and>
     (\<exists>b0. Some b = Some b0 \<and> jpeg_bytes w img hi' = Inr b0 \<and> real (length b0) / MiB \<le> tgt)"
    by blast
  from inv have c: "hi' = max_q \<or>
     (\<exists>b'. jpeg_bytes w img (hi' + 1) = Inr b' \<and> \<not> real (length b') / MiB \<le> tgt)"
    by blast
  have "min_q \<le> hi'" using a b by simp
  moreover have "jpeg_bytes w img hi' = Inr b" "real (length b) / MiB \<le> tgt" "bq' = Some hi'"
    using b by auto
  ultimately show ?thesis using a c out fs1 by auto
qed

subsection \<open>The quality a successful search returns\<close>

text \<open>
  Claim C1, as amended. When \<^verbatim>\<open>compress_jpeg\<close>, called with \<open>max_q = 100\<close>, returns success,
  the quality it returns lies between \<open>min_q\<close> and 100, the output file holds the encode
  at that quality, the size returned is the size of that encode and is at most the
  target, and the quality is a local maximum: it is 100, or the encode at the next
  quality does not meet the target. It is the result of the brute-force scan of
  \<open>min_q \<dots> 100\<close> whenever meeting the target is downward closed on that range (if a
  quality meets the target, so does every lower one), which is the case when the encoded
  size does not decrease as the quality grows.
\<close>

theorem compress_jpeg_success_quality:
  assumes "compress_jpeg w img out tgt min_q 100 st = (Inr (True, q, mb), st')"
  shows "\<exists>qv b. q = Some qv \<and> min_q \<le> qv \<and> qv \<le> 100 \<and>
           jpeg_bytes w img qv = Inr b \<and> fs st' out = Some b \<and>
           mb = Some (real (length b) / MiB) \<and> real (length b) / MiB \<le> tgt \<and>
           (qv = 100 \<or> \<not> fits w img tgt (qv + 1)) \<and>
           ((\<forall>q1 q2. min_q \<le> q1 \<and> q1 \<le> q2 \<and> q2 \<le> 100 \<and> fits w img tgt q2 \<longrightarrow> fits w img tgt q1)
              \<longrightarrow> brute_force_quality w img tgt min_q 100 = Some qv)"
proof -
  from compress_jpeg_success[OF assms] obtain qv b where
    q: "q = Some qv" and mb: "mb = Some (real (length b) / MiB)" and
    rng: "min_q \<le> qv" "qv \<le> 100" and jb: "jpeg_bytes w img qv = Inr b" and
    fit: "real (length b) / MiB \<le> tgt" and
    top: "qv = 100 \<or> (\<exists>b'. jpeg_bytes w img (qv + 1) = Inr b' \<and> \<not> real (length b') / MiB \<le> tgt)" and
    fs': "fs st' = (fs st)(out \<mapsto> b)"
    by blast
  have fq: "fits w img tgt qv" using jb fit by (simp add: fits_def)
  have top': "qv = 100 \<or> \<not> fits w img tgt (qv + 1)"
    using top by (auto simp: fits_def)
  have bf: "brute_force_quality w img tgt min_q 100 = Some qv"
    if mono: "\<forall>q1 q2. min_q \<le> q1 \<and> q1 \<le> q2 \<and> q2 \<le> 100 \<and> fits w img tgt q2 \<longrightarrow> fits w img tgt q1"
  proof -
    have above: "\<forall>q'. qv < q' \<and> q' \<le> 100 \<longrightarrow> \<not> fits w img tgt q'"
    proof (intro allI impI)
      fix q' assume h: "qv < q' \<and> q' \<le> 100"
      show "\<not> fits w img tgt q'"
      proof
        assume f: "fits w img tgt q'"
        have "min_q \<le> qv + 1 \<and> qv + 1 \<le> q' \<and> q' \<le> 100 \<and> fits w img tgt q'"
          using h rng f by simp
        then have "fits w img tgt (qv + 1)" using mono by blast
        moreover have "qv \<noteq> 100" using h by simp
        ultimately show False using top' by simp
      qed
    qed
    show ?thesis unfolding brute_force_quality_def
      by (rule find_rev_upto[OF rng fq above])
  qed
  have "fs st' out = Some b" using fs' by simp
  with q mb rng jb fit top' bf show ?thesis by blast
qed

text \<open>In the small world the encode at quality \<open>q\<close> has \<open>q\<close> bytes.\<close>

lemma demo_fits: "fits demo_world demo_image (90 / MiB) q = (q \<le> 90)"
proof -
  have "(nat q \<le> 90) = (q \<le> 90)" by linarith
  then show ?thesis
    by (simp add: fits_def jpeg_bytes_def encode_jpeg_at_def strip_orientation_def demo_defs
        Let_def MiB_def ORIENT_def)
qed

theorem compress_jpeg_success_quality_witness:
  "fst (compress_jpeg demo_world demo_image demo_out (90 / MiB) 85 100 demo_state)
     = Inr (True, Some 90, Some (90 / MiB)) \<and>
   brute_force_quality demo_world demo_image (90 / MiB) 85 100 = Some 90"
proof -
  obtain st' where eq: "compress_jpeg demo_world demo_image demo_out (90 / MiB) 85 100 demo_state
     = (Inr (True, Some 90, Some (90 / MiB)), st')"
    by (simp add: jpeg_eval demo_defs)
  have mono: "\<forall>q1 q2. 85 \<le> q1 \<and> q1 \<le> q2 \<and> q2 \<le> 100 \<and> fits demo_world demo_image (90 / MiB) q2
      \<longrightarrow> fits demo_world demo_image (90 / MiB) q1"
    by (simp add: demo_fits)
  from compress_jpeg_success_quality[OF eq] mono
  have "brute_force_quality demo_world demo_image (90 / MiB) 85 100 = Some 90" by auto
  with eq show ?thesis by simp
qed

text \<open>
  The claim as it was stated, without the condition on the encoder, fails: with sizes of
  3 bytes from quality 90 to 99 and 1 byte elsewhere, and a target of 2 bytes, the search
  from 85 to 100 probes 92, 88, 90 and 89 and returns 89, while quality 100 meets the
  target.
\<close>

theorem compress_jpeg_not_brute_force:
  "fst (compress_jpeg odd_world demo_image demo_out (2 / MiB) 85 100 demo_state)
     = Inr (True, Some 89, Some (1 / MiB)) \<and>
   brute_force_quality odd_world demo_image (2 / MiB) 85 100 = Some 100"
  by (simp add: jpeg_eval brute_force_quality_def fits_def jpeg_bytes_def demo_defs upto_rec2)

subsection \<open>Facts on the core routine\<close>

lemma process_one_large:
  assumes "fs st p = Some data" and "19 < real (length data) / MiB"
  shows "process_one w a p st =
     (case process_body w a p (real (length data) / MiB) st of
        (Inl (Exn m), st') \<Rightarrow> (Inr (''error: '' @ m, real (length data) / MiB), st')
      | (Inr r, st') \<Rightarrow> (Inr r, st'))"
  using assms by (simp add: process_one_def file_size_mb_def)

lemma process_body_jpeg:
  assumes "fs st p = Some data" and "image_open w data = Inr img0"
    and "format img0 = Some ''JPEG''" and "exif_transpose w img0 = Inr img1"
    and "out_path a p = Inr out"
  shows "process_body w a p orig st =
     (case compress_jpeg w (img1\<lparr>format := Some ''JPEG''\<rparr>) out (target_mb a) (min_quality a) 100
             (st\<lparr>log := log st @ [Decode p, Transpose]\<rparr>) of
        (Inl e, st3) \<Rightarrow> (Inl e, st3)
      | (Inr (ok, q, new_mb), st3) \<Rightarrow> (Inr (jpeg_label a ok q, or_mb new_mb orig), st3))"
  using assms by (simp add: process_body_def open_image_def Let_def)

lemma process_body_png:
  assumes "fs st p = Some data" and "image_open w data = Inr img0"
    and "format img0 = Some ''PNG''" and "exif_transpose w img0 = Inr img1"
    and "out_path a p = Inr out"
  shows "process_body w a p orig st =
     (case compress_png w (img1\<lparr>format := Some ''PNG''\<rparr>) out (target_mb a)
             (st\<lparr>log := log st @ [Decode p, Transpose]\<rparr>) of
        (Inl e, st3) \<Rightarrow> (Inl e, st3)
      | (Inr (ok, new_mb), st3) \<Rightarrow> (Inr (png_label ok, new_mb), st3))"
  using assms by (simp add: process_body_def open_image_def Let_def)

text \<open>When every encode of the range returns and exceeds the target, the search fails.\<close>

lemma compress_jpeg_all_big:
  assumes "\<forall>q. min_q \<le> q \<and> q \<le> max_q \<longrightarrow>
             (\<exists>b. jpeg_bytes w img q = Inr b \<and> \<not> real (length b) / MiB \<le> tgt)"
  shows "\<exists>st'. compress_jpeg w img out tgt min_q max_q st = (Inr (False, None, None), st') \<and>
           fs st' = fs st"
proof -
  have "\<forall>q. min_q \<le> q \<and> q \<le> max_q \<longrightarrow> (\<exists>b. jpeg_bytes w img q = Inr b)"
    using assms by blast
  from jpeg_search_returns[OF this, of tgt None None st]
  obtain lo' hi' bb' bq' st1 where
    eq: "jpeg_search w tgt img min_q max_q None None st = (Inr (lo', hi', bb', bq'), st1)"
    by (metis prod_cases4)
  have fs1: "fs st1 = fs st" using jpeg_search_state[OF eq] by simp
  have "bb' = None"
  proof (cases "min_q \<le> max_q")
    case False
    then show ?thesis using eq by (simp add: jpeg_search_exit)
  next
    case True
    then have "min_q \<le> max_q + 1" by simp
    note inv = jpeg_search_inv[OF eq this]
    from inv have a: "lo' = hi' + 1" "hi' \<le> max_q" by simp_all
    from inv have b: "(lo' = min_q \<and> bb' = None \<and> bq' = None) \<or>
      (min_q < lo' \<and> bq' = Some hi' \<and>
       (\<exists>b. bb' = Some b \<and> jpeg_bytes w img hi' = Inr b \<and> real (length b) / MiB \<le> tgt))"
      by blast
    then show ?thesis
    proof
      assume "lo' = min_q \<and> bb' = None \<and> bq' = None"
      then show ?thesis by simp
    next
      assume h: "min_q < lo' \<and> bq' = Some hi' \<and>
       (\<exists>b. bb' = Some b \<and> jpeg_bytes w img hi' = Inr b \<and> real (length b) / MiB \<le> tgt)"
      then have "min_q \<le> hi' \<and> hi' \<le> max_q" using a by simp
      then obtain b0 where "jpeg_bytes w img hi' = Inr b0" "\<not> real (length b0) / MiB \<le> tgt"
        using assms by blast
      with h show ?thesis by auto
    qed
  qed
  then show ?thesis using eq fs1 by (simp add: compress_jpeg_def)
qed

subsection \<open>The size reported when no quality meets the target\<close>

text \<open>
  Claim C2, as amended. For a JPEG file above the threshold, when the encode at every
  quality from \<open>min_quality\<close> to 100 returns and exceeds the target, \<^verbatim>\<open>compress_jpeg\<close>
  reports failure with no quality and no size, and the size that \<^verbatim>\<open>process_one\<close>
  reports for the file is the size of the original file (line 97: \<^verbatim>\<open>new_mb or orig_mb\<close>);
  the file system is left as it was.
\<close>

theorem jpeg_failure_reports_original_size:
  assumes "fs st p = Some data" and "19 < real (length data) / MiB"
    and "image_open w data = Inr img0" and "format img0 = Some ''JPEG''"
    and "exif_transpose w img0 = Inr img1" and "out_path a p = Inr out"
    and "\<forall>q. min_quality a \<le> q \<and> q \<le> 100 \<longrightarrow>
           (\<exists>b. jpeg_bytes w img1 q = Inr b \<and> \<not> real (length b) / MiB \<le> target_mb a)"
  shows "(\<exists>st1. compress_jpeg w (img1\<lparr>format := Some ''JPEG''\<rparr>) out (target_mb a) (min_quality a) 100
                  (st\<lparr>log := log st @ [Decode p, Transpose]\<rparr>) = (Inr (False, None, None), st1)) \<and>
         (\<exists>st'. process_one w a p st
                  = (Inr (jpeg_label a False None, real (length data) / MiB), st') \<and>
                fs st' = fs st)"
proof -
  have big: "\<forall>q. min_quality a \<le> q \<and> q \<le> 100 \<longrightarrow>
           (\<exists>b. jpeg_bytes w (img1\<lparr>format := Some ''JPEG''\<rparr>) q = Inr b \<and>
                \<not> real (length b) / MiB \<le> target_mb a)"
    using assms(7) by (simp add: jpeg_bytes_format)
  from compress_jpeg_all_big[OF big, of out "st\<lparr>log := log st @ [Decode p, Transpose]\<rparr>"]
  obtain st1 where c: "compress_jpeg w (img1\<lparr>format := Some ''JPEG''\<rparr>) out (target_mb a)
      (min_quality a) 100 (st\<lparr>log := log st @ [Decode p, Transpose]\<rparr>) = (Inr (False, None, None), st1)"
    and fs1: "fs st1 = fs st"
    by auto
  have "process_body w a p (real (length data) / MiB) st
          = (Inr (jpeg_label a False None, real (length data) / MiB), st1)"
    using process_body_jpeg[OF assms(1,3,4,5,6), of "real (length data) / MiB"] c
    by (simp add: or_mb_def)
  then have "process_one w a p st
          = (Inr (jpeg_label a False None, real (length data) / MiB), st1)"
    using process_one_large[OF assms(1,2), of w a] by simp
  with c fs1 show ?thesis by blast
qed

text \<open>The encoder of \<open>big_world\<close> returns 200 bytes for every image and quality.\<close>

lemma big_bytes: "jpeg_bytes big_world img q = Inr (replicate 200 0)"
  by (simp add: jpeg_bytes_def encode_jpeg_at_def strip_orientation_def demo_defs Let_def
      split: option.splits)

theorem jpeg_failure_reports_original_size_witness:
  "fst (process_one big_world demo_args demo_path demo_state)
     = Inr (jpeg_label demo_args False None, 20000000 / MiB)"
proof -
  have 1: "fs demo_state demo_path = Some (replicate 20000000 0)" by (simp add: demo_defs)
  have 2: "19 < real (length (replicate 20000000 (0 :: 8 word))) / MiB" by (simp add: MiB_def)
  have 3: "image_open big_world (replicate 20000000 0) = Inr demo_image" by (simp add: demo_defs)
  have 4: "format demo_image = Some ''JPEG''" by (simp add: demo_defs)
  have 5: "exif_transpose big_world demo_image = Inr (demo_image\<lparr>format := None\<rparr>)"
    by (simp add: demo_defs)
  have 6: "out_path demo_args demo_path = Inr demo_out"
    by (simp add: out_path_def with_stem_def with_name_def stem_def suffix_def demo_defs)
  have 7: "\<forall>q. min_quality demo_args \<le> q \<and> q \<le> 100 \<longrightarrow>
           (\<exists>b. jpeg_bytes big_world (demo_image\<lparr>format := None\<rparr>) q = Inr b \<and>
                \<not> real (length b) / MiB \<le> target_mb demo_args)"
    by (simp add: big_bytes demo_args_def MiB_def)
  from jpeg_failure_reports_original_size[OF 1 2 3 4 5 6 7] show ?thesis by auto
qed

text \<open>
  The claim as it was stated fails: with an encoder that returns 200 bytes at every
  quality and a target of 90 bytes, no quality from 85 to 100 meets the target, the
  encode at the minimum quality has 200 bytes, and the size reported for the file of
  20000000 bytes is 20000000 bytes in MB, not 200.
\<close>

theorem jpeg_failure_size_not_min_quality:
  "brute_force_quality big_world demo_image (target_mb demo_args) (min_quality demo_args) 100 = None \<and>
   jpeg_bytes big_world demo_image (min_quality demo_args) = Inr (replicate 200 0) \<and>
   fst (process_one big_world demo_args demo_path demo_state)
     = Inr (jpeg_label demo_args False None, 20000000 / MiB) \<and>
   (20000000 / MiB :: real) \<noteq> real (length (replicate 200 (0 :: 8 word))) / MiB"
  by (simp add: process_one_def process_body_def open_image_def out_path_def with_stem_def
      with_name_def stem_def suffix_def or_mb_def jpeg_eval brute_force_quality_def fits_def
      jpeg_bytes_def demo_defs upto_rec2)

subsection \<open>Files at or below the threshold\<close>



subsection \<open>Facts on the PNG encode\<close>

lemma compress_png_ok:
  assumes "write_error w out = None" and "save_png w (pixels img) True 9 = Inr b"
  shows "compress_png w img out tgt st =
     (Inr (real (length b) / MiB \<le> tgt, real (length b) / MiB),
      st\<lparr>log := log st @ [EncodePNG out True 9], fs := (fs st)(out \<mapsto> b)\<rparr>)"
  using assms by (simp add: compress_png_def save_png_to_def file_size_mb_def Let_def)

lemma compress_png_returns:
  assumes "compress_png w img out tgt st = (Inr (ok, new_mb), st')"
  shows "write_error w out = None \<and> (\<exists>b. save_png w (pixels img) True 9 = Inr b)"
  using assms
  by (auto simp: compress_png_def save_png_to_def file_size_mb_def Let_def
      split: option.splits sum.splits prod.splits)

subsection \<open>The PNG encode\<close>

text \<open>
  Claim C9. When \<^verbatim>\<open>compress_png\<close> returns, it has made exactly one encode, a PNG encode
  with \<^verbatim>\<open>optimize\<close> set and \<^verbatim>\<open>compress_level\<close> 9 and no other call, the size it returns
  is the size of that encode, and it reports success exactly when that size is at most
  the target.
\<close>

theorem compress_png_single_encode:
  assumes "compress_png w img out tgt st = (Inr (ok, new_mb), st')"
  shows "\<exists>b. save_png w (pixels img) True 9 = Inr b \<and>
           new_events st st' = [EncodePNG out True 9] \<and>
           new_mb = real (length b) / MiB \<and>
           ok = (real (length b) / MiB \<le> tgt)"
proof -
  from compress_png_returns[OF assms] obtain b where
    we: "write_error w out = None" and b: "save_png w (pixels img) True 9 = Inr b"
    by blast
  from compress_png_ok[OF we b, of tgt st] assms
  have "ok = (real (length b) / MiB \<le> tgt)" "new_mb = real (length b) / MiB"
    "st' = st\<lparr>log := log st @ [EncodePNG out True 9], fs := (fs st)(out \<mapsto> b)\<rparr>"
    by simp_all
  then show ?thesis using b by (simp add: new_events_def)
qed

theorem compress_png_single_encode_witness:
  "fst (compress_png png_world demo_image demo_out (90 / MiB) demo_state) = Inr (False, 100 / MiB) \<and>
   new_events demo_state (snd (compress_png png_world demo_image demo_out (90 / MiB) demo_state))
     = [EncodePNG demo_out True 9]"
proof -
  obtain st' where eq: "compress_png png_world demo_image demo_out (90 / MiB) demo_state
      = (Inr (False, 100 / MiB), st')"
    by (simp add: compress_png_def save_png_to_def file_size_mb_def Let_def demo_defs MiB_def)
  from compress_png_single_encode[OF eq] eq show ?thesis by auto
qed

text \<open>
  Claim C10. \<^verbatim>\<open>compress_png\<close> writes the encode to the output path before it compares
  the size with the target: whatever the target, the output path holds the encode
  afterwards. So for a PNG file above the threshold whose encode exceeds the target, in
  overwrite mode \<^verbatim>\<open>process_one\<close> reports the failure label and the original file has
  been replaced by the encode.
\<close>

theorem png_written_even_when_too_big:
  assumes "fs st p = Some data" and "19 < real (length data) / MiB"
    and "image_open w data = Inr img0" and "format img0 = Some ''PNG''"
    and "exif_transpose w img0 = Inr img1" and "overwrite a"
    and "write_error w p = None" and "save_png w (pixels img1) True 9 = Inr b"
    and "\<not> real (length b) / MiB \<le> target_mb a"
  shows "(\<forall>tgt s. fs (snd (compress_png w img1 p tgt s)) p = Some b) \<and>
         (\<exists>st'. process_one w a p st = (Inr (png_label False, real (length b) / MiB), st') \<and>
                fs st' p = Some b)"
proof -
  have 1: "\<forall>tgt s. fs (snd (compress_png w img1 p tgt s)) p = Some b"
    using compress_png_ok[OF assms(7,8)] by simp
  have out: "out_path a p = Inr p" using assms(6) by (simp add: out_path_def)
  have px: "save_png w (pixels (img1\<lparr>format := Some ''PNG''\<rparr>)) True 9 = Inr b"
    using assms(8) by simp
  have "process_body w a p (real (length data) / MiB) st =
     (Inr (png_label False, real (length b) / MiB),
      st\<lparr>log := log st @ [Decode p, Transpose] @ [EncodePNG p True 9], fs := (fs st)(p \<mapsto> b)\<rparr>)"
    using process_body_png[OF assms(1,3,4,5) out, of "real (length data) / MiB"]
      compress_png_ok[OF assms(7) px, of "target_mb a" "st\<lparr>log := log st @ [Decode p, Transpose]\<rparr>"]
      assms(9)
    by simp
  then have "process_one w a p st =
     (Inr (png_label False, real (length b) / MiB),
      st\<lparr>log := log st @ [Decode p, Transpose] @ [EncodePNG p True 9], fs := (fs st)(p \<mapsto> b)\<rparr>)"
    using process_one_large[OF assms(1,2), of w a] by simp
  then have "\<exists>st'. process_one w a p st = (Inr (png_label False, real (length b) / MiB), st') \<and>
                fs st' p = Some b"
    by simp
  with 1 show ?thesis by blast
qed

theorem png_written_even_when_too_big_witness:
  "fst (process_one png_world (demo_args\<lparr>overwrite := True\<rparr>) demo_path demo_state)
     = Inr (png_label False, 100 / MiB) \<and>
   fs (snd (process_one png_world (demo_args\<lparr>overwrite := True\<rparr>) demo_path demo_state)) demo_path
     = Some (replicate 100 0)"
proof -
  have 1: "fs demo_state demo_path = Some (replicate 20000000 0)" by (simp add: demo_defs)
  have 2: "19 < real (length (replicate 20000000 (0 :: 8 word))) / MiB" by (simp add: MiB_def)
  have 3: "image_open png_world (replicate 20000000 0) = Inr (demo_image\<lparr>format := Some ''PNG''\<rparr>)"
    by (simp add: demo_defs)
  have 4: "format (demo_image\<lparr>format := Some ''PNG''\<rparr>) = Some ''PNG''" by simp
  have 5: "exif_transpose png_world (demo_image\<lparr>format := Some ''PNG''\<rparr>)
             = Inr (demo_image\<lparr>format := None\<rparr>)"
    by (simp add: demo_defs)
  have 6: "overwrite (demo_args\<lparr>overwrite := True\<rparr>)" by simp
  have 7: "write_error png_world demo_path = None" by (simp add: demo_defs)
  have 8: "save_png png_world (pixels (demo_image\<lparr>format := None\<rparr>)) True 9 = Inr (replicate 100 0)"
    by (simp add: demo_defs)
  have 9: "\<not> real (length (replicate 100 (0 :: 8 word))) / MiB
               \<le> target_mb (demo_args\<lparr>overwrite := True\<rparr>)"
    by (simp add: demo_defs MiB_def)
  from png_written_even_when_too_big[OF 1 2 3 4 5 6 7 8 9] show ?thesis by auto
qed

subsection \<open>Facts on paths\<close>









subsection \<open>Which files an operation can change\<close>





subsection \<open>Where the output goes\<close>



lemmas process_eval = process_one_def process_body_def open_image_def out_path_def with_stem_def
  with_name_def stem_def suffix_def jpeg_label_def png_label_def or_mb_def str_opt_int_def
  str_int_def str_opt_def digits.simps

subsection \<open>Facts on the per-file boundary and the loop\<close>








subsection \<open>Errors of a single file\<close>



subsection \<open>Facts on the calls of the search\<close>

lemma compress_jpeg_log:
  "\<exists>evs ws. log (snd (compress_jpeg w img out tgt lo hi st)) = log st @ evs @ ws \<and>
     (\<forall>ev \<in> set evs. \<exists>q eb. ev = EncodeJPEG q True eb (icc_profile img) \<and>
        tobytes w (exif (stripped w img)) = Inr eb) \<and>
     (ws = [] \<or> (\<exists>b. ws = [Write out b]))"
proof -
  obtain res st1 where eq: "jpeg_search w tgt img lo hi None None st = (res, st1)"
    by (cases "jpeg_search w tgt img lo hi None None st") auto
  from jpeg_search_state[OF eq] obtain evs where l1: "log st1 = log st @ evs" and
    evs: "\<forall>ev \<in> set evs. \<exists>q eb. ev = EncodeJPEG q True eb (icc_profile img) \<and> lo \<le> q \<and> q \<le> hi \<and>
         tobytes w (exif (stripped w img)) = Inr eb"
    by blast
  have evs': "\<forall>ev \<in> set evs. \<exists>q eb. ev = EncodeJPEG q True eb (icc_profile img) \<and>
        tobytes w (exif (stripped w img)) = Inr eb"
    using evs by blast
  have "log (snd (compress_jpeg w img out tgt lo hi st)) = log st1 \<or>
        (\<exists>b. log (snd (compress_jpeg w img out tgt lo hi st)) = log st1 @ [Write out b])"
    using eq
    by (auto simp: compress_jpeg_def write_bytes_def file_size_mb_def
        split: sum.splits prod.splits option.splits)
  then show ?thesis
  proof
    assume "log (snd (compress_jpeg w img out tgt lo hi st)) = log st1"
    then have "log (snd (compress_jpeg w img out tgt lo hi st)) = log st @ evs @ []"
      using l1 by simp
    with evs' show ?thesis by blast
  next
    assume "\<exists>b. log (snd (compress_jpeg w img out tgt lo hi st)) = log st1 @ [Write out b]"
    then obtain b where "log (snd (compress_jpeg w img out tgt lo hi st)) = log st @ evs @ [Write out b]"
      using l1 by auto
    with evs' show ?thesis by blast
  qed
qed

lemma stripped_exif:
  "(exif img ORIENT \<noteq> None \<longrightarrow> exif (stripped w img) ORIENT = Some 1) \<and>
   (exif img ORIENT = None \<longrightarrow> exif (stripped w img) = exif img) \<and>
   (\<forall>t. t \<noteq> ORIENT \<longrightarrow> exif (stripped w img) t = exif img t)"
  by (auto simp: stripped_def strip_orientation_def Let_def split: option.splits)

subsection \<open>The world's transposition does not reach the search\<close>

lemma encode_jpeg_at_world:
  "encode_jpeg_at (w\<lparr>exif_transpose := g\<rparr>) img q st = encode_jpeg_at w img q st"
  by (simp add: encode_jpeg_at_def strip_orientation_def Let_def split: sum.splits)

lemma write_bytes_world:
  "write_bytes (w\<lparr>exif_transpose := g\<rparr>) out b st = write_bytes w out b st"
  by (simp add: write_bytes_def)

lemma save_png_to_world:
  "save_png_to (w\<lparr>exif_transpose := g\<rparr>) img out st = save_png_to w img out st"
  by (simp add: save_png_to_def Let_def split: option.splits sum.splits)

lemma jpeg_search_world:
  "jpeg_search (w\<lparr>exif_transpose := g\<rparr>) tgt img lo hi bb bq st = jpeg_search w tgt img lo hi bb bq st"
proof (induction w tgt img lo hi bb bq st rule: jpeg_search.induct)
  case (1 w tgt img lo hi bb bq st)
  show ?case
  proof (cases "lo \<le> hi")
    case False
    then show ?thesis by (simp add: jpeg_search_exit)
  next
    case True
    define q where "q = (lo + hi) div 2"
    obtain r i s where enc: "encode_jpeg_at w img q st = (r, i, s)"
      by (cases "encode_jpeg_at w img q st") auto
    have enc': "encode_jpeg_at (w\<lparr>exif_transpose := g\<rparr>) img q st = (r, i, s)"
      using enc by (simp add: encode_jpeg_at_world)
    note tr = encode_triple[OF enc] and tr' = encode_triple[OF enc']
    have i: "i = stripped w img" "i = stripped (w\<lparr>exif_transpose := g\<rparr>) img" using tr tr' by simp_all
    have jb: "jpeg_bytes (w\<lparr>exif_transpose := g\<rparr>) img q = jpeg_bytes w img q" using tr tr' by simp
    note step = jpeg_search_step[OF True enc[unfolded q_def], of tgt bb bq, folded q_def, folded i(1)]
    note step' = jpeg_search_step[OF True enc'[unfolded q_def], of tgt bb bq, folded q_def, folded i(2)]
    show ?thesis
    proof (cases r)
      case (Inl e)
      then have "jpeg_bytes w img q = Inl e" using tr by simp
      then show ?thesis using step step' jb by simp
    next
      case (Inr buf)
      then have b: "jpeg_bytes w img q = Inr buf" using tr by simp
      show ?thesis
      proof (cases "real (length buf) / MiB \<le> tgt")
        case fit: True
        from "1.IH"(1)[OF True q_def enc[symmetric] Inr refl fit]
        show ?thesis using step step' jb b fit by simp
      next
        case nofit: False
        from "1.IH"(2)[OF True q_def enc[symmetric] Inr refl nofit]
        show ?thesis using step step' jb b nofit by simp
      qed
    qed
  qed
qed

lemma compress_jpeg_world:
  "compress_jpeg (w\<lparr>exif_transpose := g\<rparr>) img out tgt lo hi st = compress_jpeg w img out tgt lo hi st"
  by (simp add: compress_jpeg_def jpeg_search_world write_bytes_world
      cong: prod.case_cong sum.case_cong option.case_cong)

lemma compress_png_world:
  "compress_png (w\<lparr>exif_transpose := g\<rparr>) img out tgt st = compress_png w img out tgt st"
  by (simp add: compress_png_def save_png_to_world)

lemma process_body_transposed_format:
  "process_body (with_transposed_format f w) a p orig st = process_body w a p orig st"
proof -
  have "\<And>img0. (case exif_transpose (with_transposed_format f w) img0 of
                   Inl e \<Rightarrow> Inl e | Inr img1 \<Rightarrow> Inr (img1\<lparr>format := format img0\<rparr>))
              = (case exif_transpose w img0 of
                   Inl e \<Rightarrow> Inl e | Inr img1 \<Rightarrow> Inr (img1\<lparr>format := format img0\<rparr>))"
    by (simp add: with_transposed_format_def split: sum.splits)
  show ?thesis
    unfolding process_body_def open_image_def Let_def with_transposed_format_def
    by (simp add: compress_jpeg_world compress_png_world split: option.splits sum.splits
        cong: prod.case_cong sum.case_cong option.case_cong)
qed

subsection \<open>Orientation and format tag\<close>

text \<open>
  Claim C8. Every JPEG encode that \<^verbatim>\<open>compress_jpeg\<close> makes is given the serialisation of
  an EXIF dictionary in which the orientation entry is 1 whenever the image has an
  orientation entry; the dictionary is the image's own when it has none, and agrees with
  it on every other tag. The format tag is read before the transposition: the result of
  \<^verbatim>\<open>process_one\<close> is the same whatever format tag the transposed image carries.
\<close>

theorem orientation_reset_and_format_cached:
  "(\<forall>ev \<in> set (new_events st (snd (compress_jpeg w img out tgt min_q max_q st))).
      \<forall>q opt eb icc. ev = EncodeJPEG q opt eb icc \<longrightarrow>
        (\<exists>ex'. tobytes w ex' = Inr eb \<and>
               (exif img ORIENT \<noteq> None \<longrightarrow> ex' ORIENT = Some 1) \<and>
               (exif img ORIENT = None \<longrightarrow> ex' = exif img) \<and>
               (\<forall>t. t \<noteq> ORIENT \<longrightarrow> ex' t = exif img t))) \<and>
   process_one (with_transposed_format f w) a p st = process_one w a p st"
proof (intro conjI ballI allI impI)
  fix ev q opt eb icc
  assume ev: "ev \<in> set (new_events st (snd (compress_jpeg w img out tgt min_q max_q st)))"
    and eq: "ev = EncodeJPEG q opt eb icc"
  from compress_jpeg_log[of w img out tgt min_q max_q st] obtain evs ws where
    l: "log (snd (compress_jpeg w img out tgt min_q max_q st)) = log st @ evs @ ws" and
    evs: "\<forall>ev \<in> set evs. \<exists>q eb. ev = EncodeJPEG q True eb (icc_profile img) \<and>
        tobytes w (exif (stripped w img)) = Inr eb" and
    ws: "ws = [] \<or> (\<exists>b. ws = [Write out b])"
    by blast
  have "new_events st (snd (compress_jpeg w img out tgt min_q max_q st)) = evs @ ws"
    using l by (simp add: new_events_def)
  then have "ev \<in> set evs \<or> ev \<in> set ws" using ev by simp
  moreover have "ev \<notin> set ws" using ws eq by auto
  ultimately have "ev \<in> set evs" by simp
  then have "tobytes w (exif (stripped w img)) = Inr eb" using evs eq by auto
  then show "\<exists>ex'. tobytes w ex' = Inr eb \<and>
               (exif img ORIENT \<noteq> None \<longrightarrow> ex' ORIENT = Some 1) \<and>
               (exif img ORIENT = None \<longrightarrow> ex' = exif img) \<and>
               (\<forall>t. t \<noteq> ORIENT \<longrightarrow> ex' t = exif img t)"
    using stripped_exif[of img w] by - (rule exI[of _ "exif (stripped w img)"], simp)
next
  show "process_one (with_transposed_format f w) a p st = process_one w a p st"
    by (simp add: process_one_def process_body_transposed_format cong: sum.case_cong if_cong)
qed

theorem orientation_reset_and_format_cached_witness:
  "EncodeJPEG 92 True [1] None
     \<in> set (new_events demo_state
              (snd (compress_jpeg demo_world demo_image demo_out (90 / MiB) 85 100 demo_state))) \<and>
   exif demo_image ORIENT = Some 6 \<and>
   (\<exists>ex'. tobytes demo_world ex' = Inr [1] \<and> ex' ORIENT = Some 1) \<and>
   fst (process_one (with_transposed_format (Some ''PNG'') demo_world) demo_args demo_path demo_state)
     = Inr (''JPEG '' @ check_mark @ '' (q=90)'', 90 / MiB)"
proof -
  note th = orientation_reset_and_format_cached[of demo_state demo_world demo_image demo_out
      "90 / MiB" 85 100 "Some ''PNG''" demo_args demo_path]
  have ev: "EncodeJPEG 92 True [1] None
     \<in> set (new_events demo_state
              (snd (compress_jpeg demo_world demo_image demo_out (90 / MiB) 85 100 demo_state)))"
    by (simp add: jpeg_eval demo_defs)
  have ori: "exif demo_image ORIENT = Some 6" by (simp add: demo_defs)
  from th ev have "\<exists>ex'. tobytes demo_world ex' = Inr [1] \<and>
               (exif demo_image ORIENT \<noteq> None \<longrightarrow> ex' ORIENT = Some 1) \<and>
               (exif demo_image ORIENT = None \<longrightarrow> ex' = exif demo_image) \<and>
               (\<forall>t. t \<noteq> ORIENT \<longrightarrow> ex' t = exif demo_image t)"
    by blast
  then have ex: "\<exists>ex'. tobytes demo_world ex' = Inr [1] \<and> ex' ORIENT = Some 1"
    using ori by auto
  have "fst (process_one demo_world demo_args demo_path demo_state)
     = Inr (''JPEG '' @ check_mark @ '' (q=90)'', 90 / MiB)"
    by (simp add: process_eval jpeg_eval demo_defs)
  then have "fst (process_one (with_transposed_format (Some ''PNG'') demo_world) demo_args
                demo_path demo_state)
     = Inr (''JPEG '' @ check_mark @ '' (q=90)'', 90 / MiB)"
    using th by simp
  with ev ori ex show ?thesis by simp
qed

end
